theory Spec2Isabelle
  imports Main
begin

section \<open>Key records\<close>

text \<open>
  The fields of the shared \<open>Key\<close> interface that the sources read or write, and the
  extension \<open>AnthropicKey\<close> of provider.ts. Timestamps (\<open>Date.now()\<close>, milliseconds)
  and counters are JavaScript numbers holding integers; they are modelled as \<open>int\<close>.
  The constant field \<open>service\<close> is left out. An object of the key list \<open>this.keys\<close> is
  identified by its position in the list: the list is filled once by \<open>init\<close> and no
  method removes or moves an element. The field \<open>modelFamilies\<close> holds an array, which
  is an object of its own: the record holds the reference to it, and the arrays
  themselves are kept in the object store of the section on object identity below.
\<close>

type_synonym ArrayRef = nat

record Key =
  key :: string
  hash :: string
  modelFamilies :: ArrayRef
  isDisabled :: bool
  promptCount :: int
  lastUsed :: int
  lastChecked :: int

record AnthropicKey = Key +
  claudeTokens :: int
  rateLimitedAt :: int
  rateLimitedUntil :: int
  requiresPreamble :: bool
  isPozzed :: bool

text \<open>
  What a method can throw: the \<open>Error\<close> raised by \<open>get\<close>, and the \<open>TypeError\<close> the
  JavaScript runtime raises when a property of \<open>undefined\<close> is written or
  \<open>Object.assign\<close> is given \<open>undefined\<close> as its target.
\<close>

datatype error = NoKeysAvailable | TypeError

definition RATE_LIMIT_LOCKOUT :: int where
  "RATE_LIMIT_LOCKOUT = 2000"

definition KEY_REUSE_DELAY :: int where
  "KEY_REUSE_DELAY = 500"

text \<open>
  A \<open>Partial<AnthropicKey>\<close> object literal is the list of its properties in the order
  they are written; \<open>Object.assign\<close> and the spread copy them in that order, so a later
  property overwrites an earlier one of the same name.
\<close>

datatype KeyField =
    P_key string
  | P_hash string
  | P_modelFamilies ArrayRef
  | P_isDisabled bool
  | P_promptCount int
  | P_lastUsed int
  | P_lastChecked int
  | P_claudeTokens int
  | P_rateLimitedAt int
  | P_rateLimitedUntil int
  | P_requiresPreamble bool
  | P_isPozzed bool

fun assignField :: "KeyField \<Rightarrow> AnthropicKey \<Rightarrow> AnthropicKey" where
  "assignField (P_key v) k = k\<lparr>key := v\<rparr>"
| "assignField (P_hash v) k = k\<lparr>hash := v\<rparr>"
| "assignField (P_modelFamilies v) k = k\<lparr>modelFamilies := v\<rparr>"
| "assignField (P_isDisabled v) k = k\<lparr>isDisabled := v\<rparr>"
| "assignField (P_promptCount v) k = k\<lparr>promptCount := v\<rparr>"
| "assignField (P_lastUsed v) k = k\<lparr>lastUsed := v\<rparr>"
| "assignField (P_lastChecked v) k = k\<lparr>lastChecked := v\<rparr>"
| "assignField (P_claudeTokens v) k = k\<lparr>claudeTokens := v\<rparr>"
| "assignField (P_rateLimitedAt v) k = k\<lparr>rateLimitedAt := v\<rparr>"
| "assignField (P_rateLimitedUntil v) k = k\<lparr>rateLimitedUntil := v\<rparr>"
| "assignField (P_requiresPreamble v) k = k\<lparr>requiresPreamble := v\<rparr>"
| "assignField (P_isPozzed v) k = k\<lparr>isPozzed := v\<rparr>"

definition objectAssign :: "AnthropicKey \<Rightarrow> KeyField list \<Rightarrow> AnthropicKey" where
  "objectAssign k props = fold assignField props k"

section \<open>The key provider (provider.ts)\<close>

text \<open>
  \<open>this.keys.find((k) => k.hash === h)\<close>: the position of the first key with that hash,
  \<open>None\<close> for \<open>undefined\<close>.
\<close>

fun findKey :: "string \<Rightarrow> ('a Key_scheme) list \<Rightarrow> nat option" where
  "findKey h [] = None"
| "findKey h (k # ks) = (if hash k = h then Some 0 else map_option Suc (findKey h ks))"

text \<open>
  \<open>Array.prototype.sort\<close> with a comparator: the sort is stable, and for a consistent
  comparator its result is the one of any stable sort. Insertion from the right keeps
  an element in front of the later elements it compares equal to.
\<close>

fun insertSorted :: "('a \<Rightarrow> 'a \<Rightarrow> int) \<Rightarrow> 'a \<Rightarrow> 'a list \<Rightarrow> 'a list" where
  "insertSorted cmp x [] = [x]"
| "insertSorted cmp x (y # ys) =
     (if cmp x y \<le> 0 then x # y # ys else y # insertSorted cmp x ys)"

definition sortBy :: "('a \<Rightarrow> 'a \<Rightarrow> int) \<Rightarrow> 'a list \<Rightarrow> 'a list" where
  "sortBy cmp xs = foldr (insertSorted cmp) xs []"

text \<open>The comparator of \<open>get\<close>, branch by branch.\<close>

definition compareKeys :: "int \<Rightarrow> AnthropicKey \<Rightarrow> AnthropicKey \<Rightarrow> int" where
  "compareKeys now a b =
     (let aRateLimited = now - rateLimitedAt a < RATE_LIMIT_LOCKOUT;
          bRateLimited = now - rateLimitedAt b < RATE_LIMIT_LOCKOUT
      in if aRateLimited \<and> \<not> bRateLimited then 1
         else if \<not> aRateLimited \<and> bRateLimited then - 1
         else if aRateLimited \<and> bRateLimited then rateLimitedAt a - rateLimitedAt b
         else if isPozzed a \<and> \<not> isPozzed b then 1
         else if \<not> isPozzed a \<and> isPozzed b then - 1
         else lastUsed a - lastUsed b)"

text \<open>The three assignments \<open>get\<close> makes to the selected key.\<close>

definition selectKey :: "int \<Rightarrow> AnthropicKey \<Rightarrow> AnthropicKey" where
  "selectKey now k =
     k\<lparr>lastUsed := now, rateLimitedAt := now, rateLimitedUntil := now + KEY_REUSE_DELAY\<rparr>"

text \<open>
  \<open>get\<close>: the filter builds a new array of the non-disabled keys (here: of their
  positions), which is sorted; \<open>this.keys\<close> keeps its order. The selected object is
  mutated in place and a copy of it is returned, together with the key list.
\<close>

definition get :: "int \<Rightarrow> AnthropicKey list \<Rightarrow> error + (AnthropicKey \<times> AnthropicKey list)" where
  "get now ks =
     (let availableKeys = filter (\<lambda>i. \<not> isDisabled (ks ! i)) [0..<length ks]
      in if length availableKeys = 0 then Inl NoKeysAvailable
         else (case sortBy (\<lambda>i j. compareKeys now (ks ! i) (ks ! j)) availableKeys of
                 [] \<Rightarrow> Inl TypeError
               | selected # _ \<Rightarrow>
                   (let selectedKey = selectKey now (ks ! selected)
                    in Inr (selectedKey, ks[selected := selectedKey]))))"

definition disable :: "AnthropicKey \<Rightarrow> AnthropicKey list \<Rightarrow> AnthropicKey list" where
  "disable k ks =
     (case findKey (hash k) ks of
        None \<Rightarrow> ks
      | Some i \<Rightarrow> if isDisabled (ks ! i) then ks else ks[i := (ks ! i)\<lparr>isDisabled := True\<rparr>])"

text \<open>
  \<open>update\<close>: the non-null assertion \<open>!\<close> is erased at run time, so for an unknown hash
  \<open>Object.assign(undefined, ...)\<close> throws.
\<close>

definition update :: "int \<Rightarrow> string \<Rightarrow> KeyField list \<Rightarrow> AnthropicKey list \<Rightarrow> error + AnthropicKey list" where
  "update now h upd ks =
     (case findKey h ks of
        None \<Rightarrow> Inl TypeError
      | Some i \<Rightarrow> Inr (ks[i := objectAssign (ks ! i) (P_lastChecked now # upd)]))"

definition available :: "AnthropicKey list \<Rightarrow> nat" where
  "available ks = length (filter (\<lambda>k. \<not> isDisabled k) ks)"

definition incrementUsage :: "string \<Rightarrow> string \<Rightarrow> int \<Rightarrow> AnthropicKey list \<Rightarrow> AnthropicKey list" where
  "incrementUsage h model tokens ks =
     (case findKey h ks of
        None \<Rightarrow> ks
      | Some i \<Rightarrow>
          ks[i := (ks ! i)\<lparr>promptCount := promptCount (ks ! i) + 1,
                            claudeTokens := claudeTokens (ks ! i) + tokens\<rparr>])"

text \<open>
  \<open>getLockoutPeriod\<close>: \<open>Math.min(...xs)\<close> of a non-empty array is the fold of \<open>min\<close>
  over it; the empty array is returned from earlier.
\<close>

definition getLockoutPeriod :: "int \<Rightarrow> AnthropicKey list \<Rightarrow> int" where
  "getLockoutPeriod now ks =
     (let activeKeys = filter (\<lambda>k. \<not> isDisabled k) ks
      in if length activeKeys = 0 then 0
         else (let rateLimitedKeys = filter (\<lambda>k. now < rateLimitedUntil k) activeKeys;
                   anyNotRateLimited = length rateLimitedKeys < length activeKeys
               in if anyNotRateLimited then 0
                  else (case map (\<lambda>k. rateLimitedUntil k - now) activeKeys of
                          [] \<Rightarrow> 0
                        | d # ds \<Rightarrow> fold min ds d)))"

text \<open>\<open>markRateLimited\<close>: as in \<open>update\<close>, an unknown hash makes the first assignment throw.\<close>

definition markRateLimited :: "int \<Rightarrow> string \<Rightarrow> AnthropicKey list \<Rightarrow> error + AnthropicKey list" where
  "markRateLimited now keyHash ks =
     (case findKey keyHash ks of
        None \<Rightarrow> Inl TypeError
      | Some i \<Rightarrow>
          Inr (ks[i := (ks ! i)\<lparr>rateLimitedAt := now,
                                 rateLimitedUntil := now + RATE_LIMIT_LOCKOUT\<rparr>]))"

section \<open>The key checker\<close>

text \<open>
  The checker of the sources is the one written for the OpenAI keys. It reads only
  fields of the shared \<open>Key\<close> interface, so it is modelled over every extension of
  \<open>Key\<close>; it writes through the callback \<open>updateKey\<close> only, which the provider binds to
  its own \<open>update\<close>. It holds the provider's key list itself (the same array), hence the
  list is an argument and not part of the checker's state.
\<close>

definition MIN_CHECK_INTERVAL :: int where
  "MIN_CHECK_INTERVAL = 3 * 1000"

definition KEY_CHECK_PERIOD :: int where
  "KEY_CHECK_PERIOD = 30 * 60 * 1000"

text \<open>
  A timer armed by \<open>setTimeout\<close>: what its callback does, and the delay. The callback of
  the startup batch calls \<open>checkKey\<close> on every key of the batch, awaits all of them and
  calls \<open>scheduleNextCheck\<close>; the other callback calls \<open>checkKey\<close> on one key.
\<close>

datatype Callback = CheckBatchThenSchedule "nat list" | CheckKey nat

datatype Timer = Timer Callback int

record Checker =
  lastCheck :: int
  timeout :: "Timer option"

definition olderKey :: "('a Key_scheme) list \<Rightarrow> nat \<Rightarrow> nat \<Rightarrow> nat" where
  "olderKey ks oldest k = (if lastChecked (ks ! k) < lastChecked (ks ! oldest) then k else oldest)"

text \<open>
  \<open>scheduleNextCheck\<close>: \<open>!key.lastChecked\<close> holds when the number is \<open>0\<close>;
  \<open>reduce\<close> without an initial value starts from the first element.
\<close>

definition scheduleNextCheck :: "int \<Rightarrow> ('a Key_scheme) list \<Rightarrow> Checker \<Rightarrow> Checker" where
  "scheduleNextCheck now ks c =
     (let enabledKeys = filter (\<lambda>i. \<not> isDisabled (ks ! i)) [0..<length ks]
      in if length enabledKeys = 0 then c
         else (let uncheckedKeys = filter (\<lambda>i. lastChecked (ks ! i) = 0) enabledKeys
               in if length uncheckedKeys > 0
                  then (let keysToCheck = take 12 uncheckedKeys
                        in c\<lparr>timeout := Some (Timer (CheckBatchThenSchedule keysToCheck) 250)\<rparr>)
                  else (case enabledKeys of
                          [] \<Rightarrow> c
                        | e # es \<Rightarrow>
                            (let oldestKey = foldl (olderKey ks) e es;
                                 nextCheck = max (lastChecked (ks ! oldestKey) + KEY_CHECK_PERIOD)
                                                 (lastCheck c + MIN_CHECK_INTERVAL);
                                 delay = nextCheck - now
                             in c\<lparr>timeout := Some (Timer (CheckKey oldestKey) delay)\<rparr>))))"

text \<open>
  The error a failed probe throws: \<open>error.response\<close> may be absent (a network failure),
  and \<open>response.data?.error?.type\<close> may be absent.
\<close>

record AxiosResponse =
  status :: int
  errorType :: "string option"

record AxiosError =
  response :: "AxiosResponse option"

text \<open>\<open>errorIsOpenAiError\<close> returns \<open>data?.error?.type\<close>, which is truthy for a non-empty string.\<close>

definition errorIsOpenAiError :: "AxiosError \<Rightarrow> bool" where
  "errorIsOpenAiError err =
     (case response err of
        None \<Rightarrow> False
      | Some r \<Rightarrow> (case errorType r of None \<Rightarrow> False | Some t \<Rightarrow> t \<noteq> []))"

text \<open>
  \<open>handleAxiosError\<close>. The callback takes the reading of \<open>Date.now()\<close> it makes itself
  (\<open>tUpdate\<close>); \<open>tNow\<close> is the reading of \<open>Date.now()\<close> in the rate-limit branches.
\<close>

definition handleAxiosError ::
  "(int \<Rightarrow> string \<Rightarrow> KeyField list \<Rightarrow> 's \<Rightarrow> error + 's) \<Rightarrow> int \<Rightarrow> int \<Rightarrow>
   'a Key_scheme \<Rightarrow> AxiosError \<Rightarrow> 's \<Rightarrow> error + 's" where
  "handleAxiosError updateKey tNow tUpdate k err s =
     (case response err of
        None \<Rightarrow> Inr s
      | Some r \<Rightarrow>
          if errorIsOpenAiError err
          then (let ty = (case errorType r of None \<Rightarrow> [] | Some t \<Rightarrow> t)
                in if status r = 401 then updateKey tUpdate (hash k) [P_isDisabled True] s
                   else if status r = 429 \<and> ty = ''insufficient_quota''
                     then updateKey tUpdate (hash k) [P_isDisabled True] s
                   else if status r = 429 \<and> ty = ''access_terminated''
                     then updateKey tUpdate (hash k) [P_isDisabled True] s
                   else if status r = 429 \<and> ty = ''billing_not_active''
                     then updateKey tUpdate (hash k) [P_isDisabled True] s
                   else if status r = 429 \<and> ty \<in> set [''requests'', ''tokens'']
                     then (if ty = ''requests''
                           then (let fifteenSeconds = 15 * 1000;
                                     nextCheck = tNow - (KEY_CHECK_PERIOD - fifteenSeconds)
                                 in updateKey tUpdate (hash k) [P_lastChecked nextCheck] s)
                           else if ty = ''tokens''
                           then updateKey tUpdate (hash k) [P_lastChecked tNow] s
                           else Inr s)
                   else Inr s)
          else Inr s)"

text \<open>
  The \<open>catch\<close> block of \<open>checkKey\<close>: touch the key, then classify the error. \<open>tTouch\<close> is
  the clock reading of the first call of the callback.
\<close>

definition checkKeyCatch ::
  "(int \<Rightarrow> string \<Rightarrow> KeyField list \<Rightarrow> 's \<Rightarrow> error + 's) \<Rightarrow> int \<Rightarrow> int \<Rightarrow> int \<Rightarrow>
   'a Key_scheme \<Rightarrow> AxiosError \<Rightarrow> 's \<Rightarrow> error + 's" where
  "checkKeyCatch updateKey tTouch tNow tUpdate k err s =
     (case updateKey tTouch (hash k) [] s of
        Inl e \<Rightarrow> Inl e
      | Inr s' \<Rightarrow> handleAxiosError updateKey tNow tUpdate k err s')"

section \<open>The provider with its checker\<close>

record Provider =
  keys :: "AnthropicKey list"
  checker :: "Checker option"

text \<open>The state the constructors leave: no keys, no checker; a checker with no timer.\<close>

definition newProvider :: Provider where
  "newProvider = \<lparr>keys = [], checker = None\<rparr>"

definition newChecker :: Checker where
  "newChecker = \<lparr>lastCheck = 0, timeout = None\<rparr>"

text \<open>
  \<open>init\<close>: \<open>loadedKeys\<close> is what the store's \<open>load()\<close> resolved to and \<open>checkKeys\<close> the
  configuration flag; \<open>start\<close> of the checker is \<open>scheduleNextCheck\<close>.
\<close>

definition init :: "bool \<Rightarrow> int \<Rightarrow> AnthropicKey list \<Rightarrow> Provider \<Rightarrow> Provider" where
  "init checkKeys now loadedKeys p =
     (if length loadedKeys = 0 then p
      else (let ks = keys p @ loadedKeys
            in if checkKeys
               then p\<lparr>keys := ks, checker := Some (scheduleNextCheck now ks newChecker)\<rparr>
               else p\<lparr>keys := ks\<rparr>))"

text \<open>
  \<open>recheck\<close>: \<open>forEach\<close> visits the positions in order and calls \<open>update\<close> with the hash
  of the key at that position; then \<open>this.checker?.scheduleNextCheck()\<close>.
\<close>

fun recheckLoop :: "int \<Rightarrow> nat list \<Rightarrow> AnthropicKey list \<Rightarrow> error + AnthropicKey list" where
  "recheckLoop now [] ks = Inr ks"
| "recheckLoop now (i # is) ks =
     (case update now (hash (ks ! i)) [P_isPozzed False, P_isDisabled False, P_lastChecked 0] ks of
        Inl e \<Rightarrow> Inl e
      | Inr ks' \<Rightarrow> recheckLoop now is ks')"

definition recheck :: "int \<Rightarrow> Provider \<Rightarrow> error + Provider" where
  "recheck now p =
     (case recheckLoop now [0..<length (keys p)] (keys p) of
        Inl e \<Rightarrow> Inl e
      | Inr ks' \<Rightarrow>
          Inr (p\<lparr>keys := ks', checker := map_option (scheduleNextCheck now ks') (checker p)\<rparr>))"

text \<open>
  A call of a public method that can write to the provider, with its arguments, and the
  state it leaves at clock reading \<open>now\<close>. \<open>get\<close>, \<open>update\<close> and \<open>markRateLimited\<close>
  throw before they write anything, so a throwing call leaves the state as it was;
  \<open>recheck\<close> looks up hashes of the pool only and does not throw.
\<close>

datatype Call =
    CallGet
  | CallDisable AnthropicKey
  | CallUpdate string "KeyField list"
  | CallIncrementUsage string string int
  | CallMarkRateLimited string
  | CallRecheck

fun perform :: "Provider \<Rightarrow> int \<times> Call \<Rightarrow> Provider" where
  "perform p (now, CallGet) =
     (case get now (keys p) of Inl e \<Rightarrow> p | Inr (snapshot, ks') \<Rightarrow> p\<lparr>keys := ks'\<rparr>)"
| "perform p (now, CallDisable k) = p\<lparr>keys := disable k (keys p)\<rparr>"
| "perform p (now, CallUpdate h upd) =
     (case update now h upd (keys p) of Inl e \<Rightarrow> p | Inr ks' \<Rightarrow> p\<lparr>keys := ks'\<rparr>)"
| "perform p (now, CallIncrementUsage h model tokens) =
     p\<lparr>keys := incrementUsage h model tokens (keys p)\<rparr>"
| "perform p (now, CallMarkRateLimited h) =
     (case markRateLimited now h (keys p) of Inl e \<Rightarrow> p | Inr ks' \<Rightarrow> p\<lparr>keys := ks'\<rparr>)"
| "perform p (now, CallRecheck) =
     (case recheck now p of Inl e \<Rightarrow> p | Inr p' \<Rightarrow> p')"

section \<open>Object identity of the snapshot\<close>

text \<open>
  \<open>get\<close> returns \<open>{ ...selectedKey }\<close>: a new object that holds the same property
  values as the selected record. To tell a new object from an alias of a pool record,
  objects get references: a pool record is referred to by its position in \<open>this.keys\<close>,
  and every object made by the spread is appended to the objects handed out to callers.
  The spread is shallow: the value of \<open>modelFamilies\<close> is the reference to an array, so
  the new object and the pool record hold the same array. The arrays are objects of the
  store, found by their reference.
\<close>

datatype KeyRef = PoolKey nat | Snapshot nat

record Objects =
  pool :: "AnthropicKey list"
  snapshots :: "AnthropicKey list"
  arrays :: "string list list"

definition getRef :: "int \<Rightarrow> Objects \<Rightarrow> error + (KeyRef \<times> Objects)" where
  "getRef now s =
     (case get now (pool s) of
        Inl e \<Rightarrow> Inl e
      | Inr (snapshot, ks') \<Rightarrow>
          Inr (Snapshot (length (snapshots s)),
               s\<lparr>pool := ks', snapshots := snapshots s @ [snapshot]\<rparr>))"

fun deref :: "Objects \<Rightarrow> KeyRef \<Rightarrow> AnthropicKey option" where
  "deref s (PoolKey i) = (if i < length (pool s) then Some (pool s ! i) else None)"
| "deref s (Snapshot i) = (if i < length (snapshots s) then Some (snapshots s ! i) else None)"

text \<open>
  What a caller can do with the object behind a reference. It can assign to its
  properties, \<open>ref.field = v\<close> (\<open>mutate\<close>; the assignment may also put another array
  reference into \<open>modelFamilies\<close>), and it can write in place to the array the object
  holds, as in \<open>ref.modelFamilies.push(x)\<close> (\<open>pushFamily\<close>).
\<close>

fun mutate :: "KeyRef \<Rightarrow> (AnthropicKey \<Rightarrow> AnthropicKey) \<Rightarrow> Objects \<Rightarrow> Objects" where
  "mutate (PoolKey i) f s = s\<lparr>pool := (pool s)[i := f (pool s ! i)]\<rparr>"
| "mutate (Snapshot i) f s = s\<lparr>snapshots := (snapshots s)[i := f (snapshots s ! i)]\<rparr>"

definition pushFamily :: "KeyRef \<Rightarrow> string \<Rightarrow> Objects \<Rightarrow> Objects" where
  "pushFamily r x s =
     (case deref s r of
        None \<Rightarrow> s
      | Some k \<Rightarrow>
          if modelFamilies k < length (arrays s)
          then s\<lparr>arrays := (arrays s)[modelFamilies k := arrays s ! modelFamilies k @ [x]]\<rparr>
          else s)"

text \<open>
  What reading a key of the pool yields: its own properties, and behind
  \<open>modelFamilies\<close> the contents of the array (\<open>None\<close> for a reference to no array).
\<close>

definition readFamilies :: "Objects \<Rightarrow> AnthropicKey \<Rightarrow> string list option" where
  "readFamilies s k =
     (if modelFamilies k < length (arrays s) then Some (arrays s ! modelFamilies k) else None)"

definition poolView :: "Objects \<Rightarrow> (AnthropicKey \<times> string list option) list" where
  "poolView s = map (\<lambda>k. (k, readFamilies s k)) (pool s)"

section \<open>The ranking of the keys, in words\<close>

text \<open>
  The two readings of "rate limited": the test the comparator of \<open>get\<close> makes, and the
  lock-out test of \<open>getLockoutPeriod\<close> (\<open>now < rateLimitedUntil\<close>).
\<close>

definition recentlyRateLimited :: "int \<Rightarrow> AnthropicKey \<Rightarrow> bool" where
  "recentlyRateLimited now k = (now - rateLimitedAt k < RATE_LIMIT_LOCKOUT)"

definition lockedOut :: "int \<Rightarrow> AnthropicKey \<Rightarrow> bool" where
  "lockedOut now k = (now < rateLimitedUntil k)"

text \<open>
  \<open>outranks limited a b\<close>: key \<open>a\<close> is ranked strictly above key \<open>b\<close>, for a test
  \<open>limited\<close> of being rate limited. A key that is not limited outranks a limited one;
  of two limited keys the one limited earlier; of two keys that are not limited the
  one without the flag \<open>isPozzed\<close>, and with equal flags the one used longer ago.
\<close>

definition outranks :: "(AnthropicKey \<Rightarrow> bool) \<Rightarrow> AnthropicKey \<Rightarrow> AnthropicKey \<Rightarrow> bool" where
  "outranks limited a b =
     (if limited a \<and> limited b then rateLimitedAt a < rateLimitedAt b
      else if limited a \<or> limited b then limited b
      else if isPozzed a = isPozzed b then lastUsed a < lastUsed b
      else isPozzed b)"

section \<open>Model families\<close>

text \<open>
  The family a model name's prefix stands for, as the user store tells them apart when
  it counts prompts (\<open>model.slice(0, 3) == "gpt"\<close>, \<open>== "cla"\<close>). An Anthropic key has
  one token counter, \<open>claudeTokens\<close>.
\<close>

datatype ModelFamily = GptFamily | ClaudeFamily

definition familyOfModel :: "string \<Rightarrow> ModelFamily option" where
  "familyOfModel model =
     (if take 3 model = ''gpt'' then Some GptFamily
      else if take 3 model = ''cla'' then Some ClaudeFamily
      else None)"

section \<open>Example keys\<close>

definition exampleKey :: "string \<Rightarrow> AnthropicKey" where
  "exampleKey h =
     \<lparr>key = ''sk-ant-'' @ h, hash = h, modelFamilies = 0, isDisabled = False,
      promptCount = 0, lastUsed = 0, lastChecked = 0, claudeTokens = 0, rateLimitedAt = 0,
      rateLimitedUntil = 0, requiresPreamble = False, isPozzed = False\<rparr>"

text \<open>
  \<open>recentKey\<close> was selected by \<open>get\<close> at time 9000; \<open>pozzedKey\<close> carries the flag and
  was never used; \<open>disabledKey\<close> is disabled.
\<close>

definition recentKey :: AnthropicKey where
  "recentKey = selectKey 9000 (exampleKey ''a1'')"

definition pozzedKey :: AnthropicKey where
  "pozzedKey = (exampleKey ''b2'')\<lparr>isPozzed := True\<rparr>"

definition disabledKey :: AnthropicKey where
  "disabledKey = (exampleKey ''c3'')\<lparr>isDisabled := True\<rparr>"

definition examplePool :: "AnthropicKey list" where
  "examplePool =
     [disabledKey, recentKey, pozzedKey,
      (exampleKey ''d4'')\<lparr>lastUsed := 5000\<rparr>, (exampleKey ''e5'')\<lparr>lastUsed := 3000\<rparr>]"

text \<open>A store of two keys, each with an array of its own, and no snapshot handed out yet.\<close>

definition exampleObjects :: Objects where
  "exampleObjects =
     \<lparr>pool = [recentKey, pozzedKey\<lparr>modelFamilies := 1\<rparr>], snapshots = [],
      arrays = [[''claude''], [''claude'']]\<rparr>"

text \<open>The same store after \<open>get\<close> at time 10000 has selected the second key.\<close>

definition exampleObjectsAfterGet :: Objects where
  "exampleObjectsAfterGet =
     \<lparr>pool = [recentKey, selectKey 10000 (pozzedKey\<lparr>modelFamilies := 1\<rparr>)],
      snapshots = [selectKey 10000 (pozzedKey\<lparr>modelFamilies := 1\<rparr>)],
      arrays = [[''claude''], [''claude'']]\<rparr>"
section \<open>Lookup by hash\<close>

lemma findKey_Some_less: "findKey h ks = Some i \<Longrightarrow> i < length ks \<and> hash (ks ! i) = h"
  by (induction ks arbitrary: i) (auto split: if_splits)

lemma findKey_first: "findKey h ks = Some i \<Longrightarrow> j < i \<Longrightarrow> hash (ks ! j) \<noteq> h"
proof (induction ks arbitrary: i j)
  case Nil
  then show ?case by simp
next
  case (Cons k ks)
  then show ?case by (cases j) (auto split: if_splits)
qed

lemma findKey_None_iff: "findKey h ks = None \<longleftrightarrow> h \<notin> hash ` set ks"
  by (induction ks) auto

lemma findKey_nth_distinct:
  "distinct (map hash ks) \<Longrightarrow> i < length ks \<Longrightarrow> findKey (hash (ks ! i)) ks = Some i"
proof (induction ks arbitrary: i)
  case Nil
  then show ?case by simp
next
  case (Cons k ks)
  show ?case
  proof (cases i)
    case 0
    then show ?thesis by simp
  next
    case (Suc n)
    with Cons.prems have "hash (ks ! n) \<in> hash ` set ks" by simp
    with Cons.prems have "hash k \<noteq> hash (ks ! n)" by auto
    with Cons Suc show ?thesis by simp
  qed
qed

lemma findKey_update_same:
  assumes "findKey h ks = Some i" and "hash k' = h"
  shows "findKey h (ks[i := k']) = Some i"
  using assms
proof (induction ks arbitrary: i)
  case Nil
  then show ?case by simp
next
  case (Cons k ks)
  then show ?case by (cases i) (auto split: if_splits)
qed

section \<open>The comparator and the sort\<close>

lemma sortBy_Nil: "sortBy cmp [] = []"
  by (simp add: sortBy_def)

lemma sortBy_Cons: "sortBy cmp (x # xs) = insertSorted cmp x (sortBy cmp xs)"
  by (simp add: sortBy_def)

text \<open>
  For a comparator that is total and transitive, the first element of the sorted list
  is the leftmost element of the input that no element precedes strictly.
\<close>

lemma sortBy_head:
  assumes total: "\<And>a b. cmp a b \<le> 0 \<or> cmp b a \<le> 0"
    and trans: "\<And>a b c. cmp a b \<le> 0 \<Longrightarrow> cmp b c \<le> 0 \<Longrightarrow> cmp a c \<le> 0"
  shows "xs \<noteq> [] \<Longrightarrow>
    \<exists>m rest ys zs. sortBy cmp xs = m # rest \<and> xs = ys @ m # zs \<and>
      (\<forall>y\<in>set ys. \<not> cmp y m \<le> 0) \<and> (\<forall>z\<in>set zs. cmp m z \<le> 0)"
proof (induction xs)
  case Nil
  then show ?case by simp
next
  case (Cons x xs)
  show ?case
  proof (cases "xs = []")
    case True
    then have "sortBy cmp (x # xs) = x # [] \<and> x # xs = [] @ x # []"
      by (simp add: sortBy_Cons sortBy_Nil)
    then show ?thesis by fastforce
  next
    case False
    with Cons.IH obtain m rest ys zs where
      s: "sortBy cmp xs = m # rest" and xs: "xs = ys @ m # zs" and
      before: "\<forall>y\<in>set ys. \<not> cmp y m \<le> 0" and after: "\<forall>z\<in>set zs. cmp m z \<le> 0"
      by blast
    show ?thesis
    proof (cases "cmp x m \<le> 0")
      case True
      have "cmp x z \<le> 0" if "z \<in> set xs" for z
      proof -
        have "cmp m z \<le> 0"
          using that xs before after total[of m z] by auto
        with True show ?thesis by (rule trans)
      qed
      moreover have "sortBy cmp (x # xs) = x # m # rest"
        using True s by (simp add: sortBy_Cons)
      moreover have "x # xs = [] @ x # xs" by simp
      ultimately show ?thesis by (metis empty_iff list.set(1))
    next
      case False
      then have "sortBy cmp (x # xs) = m # insertSorted cmp x rest"
        using s by (simp add: sortBy_Cons)
      moreover have "x # xs = (x # ys) @ m # zs" using xs by simp
      moreover have "\<forall>y\<in>set (x # ys). \<not> cmp y m \<le> 0" using False before by simp
      ultimately show ?thesis using after by blast
    qed
  qed
qed

text \<open>The comparator of \<open>get\<close> is consistent, and it is the ranking \<open>outranks\<close>.\<close>

lemma compareKeys_le_iff:
  "compareKeys now a b \<le> 0 \<longleftrightarrow> \<not> outranks (recentlyRateLimited now) b a"
  by (auto simp: compareKeys_def outranks_def recentlyRateLimited_def Let_def)

lemma compareKeys_total: "compareKeys now a b \<le> 0 \<or> compareKeys now b a \<le> 0"
  by (auto simp: compareKeys_def Let_def)

lemma compareKeys_trans:
  "compareKeys now a b \<le> 0 \<Longrightarrow> compareKeys now b c \<le> 0 \<Longrightarrow> compareKeys now a c \<le> 0"
  by (auto simp: compareKeys_def Let_def split: if_splits)

lemma filter_upt_split:
  assumes "filter P [0..<n] = ys @ m # zs"
  shows "m < n \<and> P m \<and> (\<forall>j<m. P j \<longrightarrow> j \<in> set ys)"
proof -
  have srt: "sorted (ys @ m # zs)"
    using assms[symmetric] by (simp add: sorted_wrt_filter)
  have mem: "m \<in> set (filter P [0..<n])" using assms by simp
  have "j \<in> set ys" if "j < m" "P j" for j
  proof -
    from that mem have "j \<in> set (filter P [0..<n])" by auto
    then have "j \<in> set ys \<or> j = m \<or> j \<in> set zs" using assms by auto
    moreover have "\<forall>z\<in>set zs. m \<le> z" using srt by (auto simp: sorted_append)
    ultimately show ?thesis using that by auto
  qed
  with mem show ?thesis by auto
qed

section \<open>Selection\<close>

lemma get_all_disabled:
  assumes "\<forall>k\<in>set ks. isDisabled k"
  shows "get now ks = Inl NoKeysAvailable"
proof -
  have "filter (\<lambda>i. \<not> isDisabled (ks ! i)) [0..<length ks] = []"
    using assms by (auto simp: filter_empty_conv)
  then show ?thesis by (simp add: get_def)
qed

lemma get_selected:
  assumes "\<exists>k\<in>set ks. \<not> isDisabled k"
  shows "\<exists>i<length ks. \<not> isDisabled (ks ! i) \<and>
     get now ks = Inr (selectKey now (ks ! i), ks[i := selectKey now (ks ! i)]) \<and>
     (\<forall>j<length ks. \<not> isDisabled (ks ! j) \<longrightarrow> compareKeys now (ks ! i) (ks ! j) \<le> 0) \<and>
     (\<forall>j<i. \<not> isDisabled (ks ! j) \<longrightarrow> \<not> compareKeys now (ks ! j) (ks ! i) \<le> 0)"
proof -
  let ?P = "\<lambda>i. \<not> isDisabled (ks ! i)"
  let ?av = "filter ?P [0..<length ks]"
  let ?cmp = "\<lambda>i j. compareKeys now (ks ! i) (ks ! j)"
  from assms obtain i0 where "i0 < length ks" "?P i0" by (auto simp: in_set_conv_nth)
  then have ne: "?av \<noteq> []" by (auto simp: filter_empty_conv)
  have tot: "\<And>a b. ?cmp a b \<le> 0 \<or> ?cmp b a \<le> 0" by (rule compareKeys_total)
  have tr: "\<And>a b c. ?cmp a b \<le> 0 \<Longrightarrow> ?cmp b c \<le> 0 \<Longrightarrow> ?cmp a c \<le> 0"
    by (rule compareKeys_trans)
  have "\<exists>m rest ys zs. sortBy ?cmp ?av = m # rest \<and> ?av = ys @ m # zs \<and>
      (\<forall>y\<in>set ys. \<not> ?cmp y m \<le> 0) \<and> (\<forall>z\<in>set zs. ?cmp m z \<le> 0)"
    using sortBy_head[of ?cmp ?av, OF tot tr ne] .
  then obtain m rest ys zs where
    s: "sortBy ?cmp ?av = m # rest" and av: "?av = ys @ m # zs" and
    before: "\<forall>y\<in>set ys. \<not> ?cmp y m \<le> 0" and after: "\<forall>z\<in>set zs. ?cmp m z \<le> 0"
    by blast
  from filter_upt_split[OF av] have m: "m < length ks" "?P m" and
    lt: "\<forall>j<m. ?P j \<longrightarrow> j \<in> set ys" by auto
  have g: "get now ks = Inr (selectKey now (ks ! m), ks[m := selectKey now (ks ! m)])"
    using ne s by (simp add: get_def Let_def)
  have best: "?cmp m j \<le> 0" if "j < length ks" "?P j" for j
  proof -
    from that have "j \<in> set ?av" by simp
    then have "j \<in> set ys \<or> j = m \<or> j \<in> set zs" unfolding av by auto
    then show ?thesis
      using before after compareKeys_total[of now "ks ! j" "ks ! m"]
        compareKeys_total[of now "ks ! m" "ks ! m"]
      by auto
  qed
  have first: "\<not> ?cmp j m \<le> 0" if "j < m" "?P j" for j
    using that lt before by auto
  from m g best first show ?thesis by blast
qed

lemma get_Inr_shape:
  assumes "get now ks = Inr (snap, ks')"
  shows "\<exists>i<length ks. \<not> isDisabled (ks ! i) \<and> snap = selectKey now (ks ! i) \<and> ks' = ks[i := snap]"
proof (cases "\<exists>k\<in>set ks. \<not> isDisabled k")
  case True
  from get_selected[OF True, of now] assms show ?thesis by auto
next
  case False
  then have "get now ks = Inl NoKeysAvailable" by (intro get_all_disabled) auto
  with assms show ?thesis by simp
qed

text \<open>Evaluating \<open>get\<close> on the example pool at time 10000: the key at position 4.\<close>

lemma get_examplePool:
  "get 10000 examplePool =
     Inr (selectKey 10000 (examplePool ! 4), examplePool[4 := selectKey 10000 (examplePool ! 4)])"
  by (simp add: examplePool_def disabledKey_def recentKey_def pozzedKey_def exampleKey_def
      get_def sortBy_def compareKeys_def RATE_LIMIT_LOCKOUT_def selectKey_def Let_def)
section \<open>Claims about selection and lockout\<close>

text \<open>
  Claim C1, as the code has it. When every key is disabled (the empty pool included)
  \<open>get\<close> fails with the no-key-available error. Otherwise it returns a copy of a
  non-disabled key, at a position \<open>i\<close> of the pool, that no non-disabled key outranks,
  and that outranks every non-disabled key in front of it in the pool (ties go to the
  earlier position). The ranking is \<open>outranks\<close> with the comparator's own test of being
  rate limited, \<open>now - rateLimitedAt < RATE_LIMIT_LOCKOUT\<close>: a key that is not rate
  limited outranks a rate limited one; of two rate limited keys the one with the
  earlier \<open>rateLimitedAt\<close>; of two keys that are not rate limited the one without
  \<open>isPozzed\<close>, and with equal flags the one with the smaller \<open>lastUsed\<close>.
\<close>

theorem get_highest_priority:
  "((\<forall>k\<in>set ks. isDisabled k) \<longrightarrow> get now ks = Inl NoKeysAvailable) \<and>
   ((\<exists>k\<in>set ks. \<not> isDisabled k) \<longrightarrow>
      (\<exists>i<length ks.
         get now ks = Inr (selectKey now (ks ! i), ks[i := selectKey now (ks ! i)]) \<and>
         \<not> isDisabled (ks ! i) \<and> \<not> isDisabled (selectKey now (ks ! i)) \<and>
         (\<forall>j<length ks. \<not> isDisabled (ks ! j) \<longrightarrow>
              \<not> outranks (recentlyRateLimited now) (ks ! j) (ks ! i)) \<and>
         (\<forall>j<i. \<not> isDisabled (ks ! j) \<longrightarrow>
              outranks (recentlyRateLimited now) (ks ! i) (ks ! j))))"
proof (intro conjI impI)
  assume "\<forall>k\<in>set ks. isDisabled k"
  then show "get now ks = Inl NoKeysAvailable" by (rule get_all_disabled)
next
  assume "\<exists>k\<in>set ks. \<not> isDisabled k"
  from get_selected[OF this, of now] obtain i where
    i: "i < length ks" "\<not> isDisabled (ks ! i)"
      "get now ks = Inr (selectKey now (ks ! i), ks[i := selectKey now (ks ! i)])" and
    best: "\<forall>j<length ks. \<not> isDisabled (ks ! j) \<longrightarrow> compareKeys now (ks ! i) (ks ! j) \<le> 0" and
    first: "\<forall>j<i. \<not> isDisabled (ks ! j) \<longrightarrow> \<not> compareKeys now (ks ! j) (ks ! i) \<le> 0"
    by blast
  have "\<not> isDisabled (selectKey now (ks ! i))" using i(2) by (simp add: selectKey_def)
  moreover have "\<forall>j<length ks. \<not> isDisabled (ks ! j) \<longrightarrow>
      \<not> outranks (recentlyRateLimited now) (ks ! j) (ks ! i)"
    using best by (simp add: compareKeys_le_iff)
  moreover have "\<forall>j<i. \<not> isDisabled (ks ! j) \<longrightarrow>
      outranks (recentlyRateLimited now) (ks ! i) (ks ! j)"
    using first by (simp add: compareKeys_le_iff)
  ultimately show "\<exists>i<length ks.
         get now ks = Inr (selectKey now (ks ! i), ks[i := selectKey now (ks ! i)]) \<and>
         \<not> isDisabled (ks ! i) \<and> \<not> isDisabled (selectKey now (ks ! i)) \<and>
         (\<forall>j<length ks. \<not> isDisabled (ks ! j) \<longrightarrow>
              \<not> outranks (recentlyRateLimited now) (ks ! j) (ks ! i)) \<and>
         (\<forall>j<i. \<not> isDisabled (ks ! j) \<longrightarrow>
              outranks (recentlyRateLimited now) (ks ! i) (ks ! j))"
    using i by blast
qed

text \<open>
  The theorem at the example pool (one disabled key, one key selected a second ago, one
  flagged key, two idle keys) and at a pool whose only key is disabled.
\<close>

theorem get_highest_priority_witness:
  "get 10000 [disabledKey] = Inl NoKeysAvailable \<and>
   (\<exists>k\<in>set examplePool. \<not> isDisabled k) \<and>
   (\<exists>i<length examplePool.
      get 10000 examplePool =
        Inr (selectKey 10000 (examplePool ! i), examplePool[i := selectKey 10000 (examplePool ! i)]) \<and>
      \<not> isDisabled (examplePool ! i) \<and> \<not> isDisabled (selectKey 10000 (examplePool ! i)) \<and>
      (\<forall>j<length examplePool. \<not> isDisabled (examplePool ! j) \<longrightarrow>
           \<not> outranks (recentlyRateLimited 10000) (examplePool ! j) (examplePool ! i)) \<and>
      (\<forall>j<i. \<not> isDisabled (examplePool ! j) \<longrightarrow>
           outranks (recentlyRateLimited 10000) (examplePool ! i) (examplePool ! j)))"
proof -
  have d: "\<forall>k\<in>set [disabledKey]. isDisabled k"
    by (simp add: disabledKey_def)
  have e: "\<exists>k\<in>set examplePool. \<not> isDisabled k"
    by (simp add: examplePool_def recentKey_def selectKey_def exampleKey_def)
  from get_highest_priority[of "[disabledKey]" 10000] d
  have "get 10000 [disabledKey] = Inl NoKeysAvailable" by blast
  moreover from get_highest_priority[of examplePool 10000] e
  have "\<exists>i<length examplePool.
      get 10000 examplePool =
        Inr (selectKey 10000 (examplePool ! i), examplePool[i := selectKey 10000 (examplePool ! i)]) \<and>
      \<not> isDisabled (examplePool ! i) \<and> \<not> isDisabled (selectKey 10000 (examplePool ! i)) \<and>
      (\<forall>j<length examplePool. \<not> isDisabled (examplePool ! j) \<longrightarrow>
           \<not> outranks (recentlyRateLimited 10000) (examplePool ! j) (examplePool ! i)) \<and>
      (\<forall>j<i. \<not> isDisabled (examplePool ! j) \<longrightarrow>
           outranks (recentlyRateLimited 10000) (examplePool ! i) (examplePool ! j))"
    by blast
  ultimately show ?thesis using e by blast
qed

text \<open>
  Claim C1 as stated takes a key to be locked out iff \<open>now < rateLimitedUntil\<close>. At time
  10000, \<open>recentKey\<close> (selected at 9000, so locked out until 9500) and \<open>pozzedKey\<close> are
  both not locked out in that sense, and \<open>recentKey\<close>, which has no flag, outranks
  \<open>pozzedKey\<close>; yet \<open>get\<close> returns \<open>pozzedKey\<close>, because the comparator still counts
  \<open>recentKey\<close> as rate limited until 11000.
\<close>

theorem get_lockedOut_counterexample:
  "\<not> isDisabled recentKey \<and> \<not> lockedOut 10000 recentKey \<and> \<not> lockedOut 10000 pozzedKey \<and>
   outranks (lockedOut 10000) recentKey pozzedKey \<and>
   get 10000 [recentKey, pozzedKey] =
     Inr (selectKey 10000 pozzedKey, [recentKey, selectKey 10000 pozzedKey])"
  by (simp add: recentKey_def pozzedKey_def exampleKey_def outranks_def lockedOut_def get_def
      sortBy_def compareKeys_def RATE_LIMIT_LOCKOUT_def KEY_REUSE_DELAY_def selectKey_def Let_def)

text \<open>A hash that matches no key of the pool, in the four methods that look a key up.\<close>

lemma unknown_hash:
  assumes "h \<notin> hash ` set ks"
  shows "update now h upd ks = Inl TypeError"
    and "markRateLimited now h ks = Inl TypeError"
    and "incrementUsage h model tokens ks = ks"
    and "hash k = h \<Longrightarrow> disable k ks = ks"
  using assms
  by (simp_all add: update_def markRateLimited_def incrementUsage_def disable_def
      findKey_None_iff[symmetric])

text \<open>
  Claim C2, at a hash that matches no key of the pool: \<open>incrementUsage\<close> and \<open>disable\<close>
  leave the pool as it is, but \<open>update\<close> and \<open>markRateLimited\<close> throw a \<open>TypeError\<close>.
\<close>

theorem unknown_hash_update_throws:
  "findKey ''0000'' [exampleKey ''a1''] = None \<and>
   update 1000 ''0000'' [] [exampleKey ''a1''] = Inl TypeError \<and>
   markRateLimited 1000 ''0000'' [exampleKey ''a1''] = Inl TypeError \<and>
   incrementUsage ''0000'' ''claude-2'' 10 [exampleKey ''a1''] = [exampleKey ''a1''] \<and>
   disable (exampleKey ''0000'') [exampleKey ''a1''] = [exampleKey ''a1'']"
  by (simp add: update_def markRateLimited_def incrementUsage_def disable_def exampleKey_def)

lemma filter_shorter_iff: "length (filter P xs) < length xs \<longleftrightarrow> (\<exists>x\<in>set xs. \<not> P x)"
  by (induction xs) (auto simp: less_Suc_eq_le intro: le_less_trans[OF length_filter_le])

text \<open>
  Claim C3. \<open>getLockoutPeriod\<close> returns \<open>0\<close> when the pool has no non-disabled key, or
  when some non-disabled key is not locked out (\<open>rateLimitedUntil \<le> now\<close>); otherwise
  it returns the minimum of \<open>rateLimitedUntil - now\<close> over the non-disabled keys.
\<close>

theorem getLockoutPeriod_spec:
  "getLockoutPeriod now ks =
     (if (\<forall>k\<in>set ks. isDisabled k) \<or> (\<exists>k\<in>set ks. \<not> isDisabled k \<and> rateLimitedUntil k \<le> now)
      then 0
      else Min ((\<lambda>k. rateLimitedUntil k - now) ` set (filter (\<lambda>k. \<not> isDisabled k) ks)))"
proof -
  let ?act = "filter (\<lambda>k. \<not> isDisabled k) ks"
  show ?thesis
  proof (cases "?act = []")
    case True
    then have "\<forall>k\<in>set ks. isDisabled k" by (auto simp: filter_empty_conv)
    with True show ?thesis by (simp add: getLockoutPeriod_def)
  next
    case False
    then have ne: "\<not> (\<forall>k\<in>set ks. isDisabled k)" by (auto simp: filter_empty_conv)
    show ?thesis
    proof (cases "\<exists>k\<in>set ks. \<not> isDisabled k \<and> rateLimitedUntil k \<le> now")
      case True
      have "length (filter (\<lambda>k. now < rateLimitedUntil k) ?act) < length ?act"
        unfolding filter_shorter_iff using True by auto
      with False True show ?thesis by (simp add: getLockoutPeriod_def Let_def)
    next
      case allLimited: False
      have nl: "\<not> length (filter (\<lambda>k. now < rateLimitedUntil k) ?act) < length ?act"
        unfolding filter_shorter_iff using allLimited by auto
      obtain a as where act: "?act = a # as" using False by (cases ?act) auto
      have "(\<lambda>k. rateLimitedUntil k - now) ` set ?act =
          set (map (\<lambda>k. rateLimitedUntil k - now) ?act)"
        by (simp only: set_map)
      also have "\<dots> = set ((rateLimitedUntil a - now) # map (\<lambda>k. rateLimitedUntil k - now) as)"
        unfolding act by simp
      finally have "Min ((\<lambda>k. rateLimitedUntil k - now) ` set ?act) =
         fold min (map (\<lambda>k. rateLimitedUntil k - now) as) (rateLimitedUntil a - now)"
        by (simp only: Min.set_eq_fold)
      moreover have "getLockoutPeriod now ks =
          (case map (\<lambda>k. rateLimitedUntil k - now) ?act of [] \<Rightarrow> 0 | d # ds \<Rightarrow> fold min ds d)"
        using False nl by (simp add: getLockoutPeriod_def Let_def)
      then have "getLockoutPeriod now ks =
          fold min (map (\<lambda>k. rateLimitedUntil k - now) as) (rateLimitedUntil a - now)"
        by (simp add: act)
      ultimately have "getLockoutPeriod now ks = Min ((\<lambda>k. rateLimitedUntil k - now) ` set ?act)"
        by simp
      moreover have "\<not> ((\<forall>k\<in>set ks. isDisabled k) \<or>
          (\<exists>k\<in>set ks. \<not> isDisabled k \<and> rateLimitedUntil k \<le> now))"
        using ne allLimited by blast
      ultimately show ?thesis by (simp only: if_False)
    qed
  qed
qed

text \<open>
  Two enabled keys locked out until 1500 and 1200 and a disabled key, at time 1000: the
  period is 200. With an enabled key that is not locked out, and with no enabled key,
  it is 0.
\<close>

theorem getLockoutPeriod_spec_witness:
  "getLockoutPeriod 1000
     [(exampleKey ''a1'')\<lparr>rateLimitedUntil := 1500\<rparr>,
      (exampleKey ''b2'')\<lparr>isDisabled := True\<rparr>,
      (exampleKey ''c3'')\<lparr>rateLimitedUntil := 1200\<rparr>] = 200
   \<and> getLockoutPeriod 1000
     [(exampleKey ''a1'')\<lparr>rateLimitedUntil := 1500\<rparr>, exampleKey ''b2''] = 0
   \<and> getLockoutPeriod 1000 [(exampleKey ''b2'')\<lparr>isDisabled := True\<rparr>] = 0"
  using getLockoutPeriod_spec [of 1000 "[(exampleKey ''a1'')\<lparr>rateLimitedUntil := 1500\<rparr>,
      (exampleKey ''b2'')\<lparr>isDisabled := True\<rparr>,
      (exampleKey ''c3'')\<lparr>rateLimitedUntil := 1200\<rparr>]"]
    getLockoutPeriod_spec [of 1000 "[(exampleKey ''a1'')\<lparr>rateLimitedUntil := 1500\<rparr>, exampleKey ''b2'']"]
    getLockoutPeriod_spec [of 1000 "[(exampleKey ''b2'')\<lparr>isDisabled := True\<rparr>]"]
  by (simp add: exampleKey_def)
section \<open>Claims about the checker\<close>

text \<open>
  Claim C4. The callback is the provider's \<open>update\<close>, as \<open>init\<close> binds it, and the probed
  key is in the pool (at position \<open>i\<close>, found by its hash). After a failed probe the
  pool differs from the one before at that key only, and there as follows. For a
  structured vendor error (a response whose \<open>data.error.type\<close> is a non-empty
  string): status 401, and status 429 with type \<open>insufficient_quota\<close>,
  \<open>access_terminated\<close> or \<open>billing_not_active\<close>, set \<open>isDisabled\<close> (and the second call
  of \<open>update\<close> stamps \<open>lastChecked\<close>); status 429 with type \<open>requests\<close> sets
  \<open>lastChecked\<close> to \<open>now - (KEY_CHECK_PERIOD - 15000)\<close>, so that
  \<open>lastChecked + KEY_CHECK_PERIOD\<close> is 15 seconds after \<open>now\<close>; status 429 with type
  \<open>tokens\<close> sets \<open>lastChecked\<close> to \<open>now\<close>; any other vendor error leaves the stamp of the
  first call, \<open>update(hash, {})\<close>, and nothing else. A failure with no response, or
  with a response that has no error type, leaves that stamp and nothing else.
\<close>

theorem probe_failure_classification:
  assumes known: "findKey (hash k) ks = Some i"
  shows
   "(response err = Some r \<and> errorType r = Some ty \<and> ty \<noteq> [] \<longrightarrow>
       checkKeyCatch update tTouch tNow tUpdate k err ks =
         Inr (ks[i :=
           (if status r = 401 \<or>
               (status r = 429 \<and>
                ty \<in> {''insufficient_quota'', ''access_terminated'', ''billing_not_active''})
            then (ks ! i)\<lparr>lastChecked := tUpdate, isDisabled := True\<rparr>
            else if status r = 429 \<and> ty = ''requests''
            then (ks ! i)\<lparr>lastChecked := tNow - (KEY_CHECK_PERIOD - 15 * 1000)\<rparr>
            else if status r = 429 \<and> ty = ''tokens''
            then (ks ! i)\<lparr>lastChecked := tNow\<rparr>
            else (ks ! i)\<lparr>lastChecked := tTouch\<rparr>)])) \<and>
    (response err = None \<or>
     (response err = Some r \<and> (errorType r = None \<or> errorType r = Some [])) \<longrightarrow>
       checkKeyCatch update tTouch tNow tUpdate k err ks =
         Inr (ks[i := (ks ! i)\<lparr>lastChecked := tTouch\<rparr>])) \<and>
    (tNow - (KEY_CHECK_PERIOD - 15 * 1000)) + KEY_CHECK_PERIOD = tNow + 15 * 1000"
proof -
  let ?ks1 = "ks[i := (ks ! i)\<lparr>lastChecked := tTouch\<rparr>]"
  from findKey_Some_less[OF known] have i: "i < length ks" "hash (ks ! i) = hash k" by auto
  have touch: "update tTouch (hash k) [] ks = Inr ?ks1"
    using known by (simp add: update_def objectAssign_def)
  have known1: "findKey (hash k) ?ks1 = Some i"
    using known i by (intro findKey_update_same) simp_all
  have upd1: "update t (hash k) upd ?ks1 =
      Inr (ks[i := objectAssign ((ks ! i)\<lparr>lastChecked := tTouch\<rparr>) (P_lastChecked t # upd)])"
    for t upd
    using known1 i by (simp add: update_def)
  have c: "checkKeyCatch update tTouch tNow tUpdate k err ks =
      handleAxiosError update tNow tUpdate k err ?ks1"
    using touch by (simp add: checkKeyCatch_def)
  have structured: "checkKeyCatch update tTouch tNow tUpdate k err ks =
         Inr (ks[i :=
           (if status r = 401 \<or>
               (status r = 429 \<and>
                ty \<in> {''insufficient_quota'', ''access_terminated'', ''billing_not_active''})
            then (ks ! i)\<lparr>lastChecked := tUpdate, isDisabled := True\<rparr>
            else if status r = 429 \<and> ty = ''requests''
            then (ks ! i)\<lparr>lastChecked := tNow - (KEY_CHECK_PERIOD - 15 * 1000)\<rparr>
            else if status r = 429 \<and> ty = ''tokens''
            then (ks ! i)\<lparr>lastChecked := tNow\<rparr>
            else (ks ! i)\<lparr>lastChecked := tTouch\<rparr>)])"
    if "response err = Some r" "errorType r = Some ty" "ty \<noteq> []"
    using that
    by (auto simp add: c handleAxiosError_def errorIsOpenAiError_def upd1 objectAssign_def Let_def)
  have network: "checkKeyCatch update tTouch tNow tUpdate k err ks = Inr ?ks1"
    if "response err = None \<or>
     (response err = Some r \<and> (errorType r = None \<or> errorType r = Some []))"
    using that
    by (auto simp add: c handleAxiosError_def errorIsOpenAiError_def)
  from structured network show ?thesis by simp
qed

text \<open>
  A request-rate 429, a 401 and a network failure on the second key of a pool of two,
  with the three clock readings 50000000, 50000005 and 50000007.
\<close>

theorem probe_failure_classification_witness:
  "findKey (hash (exampleKey ''b2'')) [exampleKey ''a1'', exampleKey ''b2''] = Some 1 \<and>
   checkKeyCatch update 50000000 50000005 50000007 (exampleKey ''b2'')
       \<lparr>response = Some \<lparr>status = 429, errorType = Some ''requests''\<rparr>\<rparr>
       [exampleKey ''a1'', exampleKey ''b2''] =
     Inr [exampleKey ''a1'', (exampleKey ''b2'')\<lparr>lastChecked := 48215005\<rparr>] \<and>
   checkKeyCatch update 50000000 50000005 50000007 (exampleKey ''b2'')
       \<lparr>response = Some \<lparr>status = 401, errorType = Some ''invalid_request_error''\<rparr>\<rparr>
       [exampleKey ''a1'', exampleKey ''b2''] =
     Inr [exampleKey ''a1'', (exampleKey ''b2'')\<lparr>lastChecked := 50000007, isDisabled := True\<rparr>] \<and>
   checkKeyCatch update 50000000 50000005 50000007 (exampleKey ''b2'')
       \<lparr>response = None\<rparr> [exampleKey ''a1'', exampleKey ''b2''] =
     Inr [exampleKey ''a1'', (exampleKey ''b2'')\<lparr>lastChecked := 50000000\<rparr>]"
proof -
  have f: "findKey (hash (exampleKey ''b2'')) [exampleKey ''a1'', exampleKey ''b2''] = Some 1"
    by (simp add: exampleKey_def)
  show ?thesis
    using f
      probe_failure_classification[OF f,
        of "\<lparr>response = Some \<lparr>status = 429, errorType = Some ''requests''\<rparr>\<rparr>"
           "\<lparr>status = 429, errorType = Some ''requests''\<rparr>" "''requests''"
           50000000 50000005 50000007]
      probe_failure_classification[OF f,
        of "\<lparr>response = Some \<lparr>status = 401, errorType = Some ''invalid_request_error''\<rparr>\<rparr>"
           "\<lparr>status = 401, errorType = Some ''invalid_request_error''\<rparr>" "''invalid_request_error''"
           50000000 50000005 50000007]
      probe_failure_classification[OF f, of "\<lparr>response = None\<rparr>" _ _ 50000000 50000005 50000007]
    by (simp add: KEY_CHECK_PERIOD_def)
qed

lemma foldl_olderKey:
  "foldl (olderKey ks) e es \<in> set (e # es) \<and>
   (\<forall>j\<in>set (e # es). lastChecked (ks ! foldl (olderKey ks) e es) \<le> lastChecked (ks ! j))"
proof (induction es arbitrary: e)
  case Nil
  then show ?case by simp
next
  case (Cons x xs)
  from Cons[of "olderKey ks e x"] show ?case
    by (auto simp: olderKey_def split: if_splits)
qed

text \<open>
  Claim C5. \<open>scheduleNextCheck\<close> arms no timer when every key is disabled. When some
  non-disabled key has \<open>lastChecked = 0\<close>, it arms a timer of 250 ms whose callback
  probes a batch and then schedules again; the batch is the first 12 (or fewer)
  non-disabled unchecked keys in pool order, so it is not empty and has at most 12
  keys whatever the size of the pool. When there is a non-disabled key and every
  non-disabled key has been checked, it arms a timer for one non-disabled key whose
  \<open>lastChecked\<close> is the least among the non-disabled keys, due at
  \<open>nextCheck = max (lastChecked + KEY_CHECK_PERIOD) (lastCheck + MIN_CHECK_INTERVAL)\<close>
  (the delay is \<open>nextCheck - now\<close>), which is at least 30 minutes after that key's
  \<open>lastChecked\<close> and at least 3 seconds after the last completed probe.
\<close>

theorem scheduleNextCheck_phases:
  "((\<forall>k\<in>set ks. isDisabled k) \<longrightarrow> scheduleNextCheck now ks c = c) \<and>
   ((\<exists>k\<in>set ks. \<not> isDisabled k \<and> lastChecked k = 0) \<longrightarrow>
      (\<exists>batch. scheduleNextCheck now ks c =
            c\<lparr>timeout := Some (Timer (CheckBatchThenSchedule batch) 250)\<rparr> \<and>
         batch = take 12 (filter (\<lambda>i. \<not> isDisabled (ks ! i) \<and> lastChecked (ks ! i) = 0) [0..<length ks]) \<and>
         0 < length batch \<and> length batch \<le> 12 \<and>
         (\<forall>i\<in>set batch. i < length ks \<and> \<not> isDisabled (ks ! i) \<and> lastChecked (ks ! i) = 0))) \<and>
   ((\<exists>k\<in>set ks. \<not> isDisabled k) \<and> (\<forall>k\<in>set ks. \<not> isDisabled k \<longrightarrow> lastChecked k \<noteq> 0) \<longrightarrow>
      (\<exists>i nextCheck. i < length ks \<and> \<not> isDisabled (ks ! i) \<and>
         (\<forall>j<length ks. \<not> isDisabled (ks ! j) \<longrightarrow> lastChecked (ks ! i) \<le> lastChecked (ks ! j)) \<and>
         nextCheck = max (lastChecked (ks ! i) + KEY_CHECK_PERIOD) (lastCheck c + MIN_CHECK_INTERVAL) \<and>
         scheduleNextCheck now ks c = c\<lparr>timeout := Some (Timer (CheckKey i) (nextCheck - now))\<rparr> \<and>
         lastChecked (ks ! i) + 30 * 60 * 1000 \<le> nextCheck \<and>
         lastCheck c + 3 * 1000 \<le> nextCheck))"
proof (intro conjI impI)
  assume "\<forall>k\<in>set ks. isDisabled k"
  then have "filter (\<lambda>i. \<not> isDisabled (ks ! i)) [0..<length ks] = []"
    by (auto simp: filter_empty_conv)
  then show "scheduleNextCheck now ks c = c" by (simp add: scheduleNextCheck_def)
next
  let ?en = "filter (\<lambda>i. \<not> isDisabled (ks ! i)) [0..<length ks]"
  let ?un = "filter (\<lambda>i. lastChecked (ks ! i) = 0) ?en"
  assume "\<exists>k\<in>set ks. \<not> isDisabled k \<and> lastChecked k = 0"
  then obtain i where i: "i < length ks" "\<not> isDisabled (ks ! i)" "lastChecked (ks ! i) = 0"
    by (auto simp: in_set_conv_nth)
  then have "i \<in> set ?un" by simp
  then have un: "?un \<noteq> []" by (metis empty_iff list.set(1))
  have "i \<in> set ?en" using i by simp
  then have en: "?en \<noteq> []" by (metis empty_iff list.set(1))
  have eq: "?un = filter (\<lambda>i. \<not> isDisabled (ks ! i) \<and> lastChecked (ks ! i) = 0) [0..<length ks]"
    by (simp add: conj_commute)
  have s: "scheduleNextCheck now ks c =
      c\<lparr>timeout := Some (Timer (CheckBatchThenSchedule (take 12 ?un)) 250)\<rparr>"
    using un en by (simp add: scheduleNextCheck_def Let_def)
  have "0 < length (take 12 ?un)" using un by (cases ?un) simp_all
  moreover have "length (take 12 ?un) \<le> 12" by simp
  moreover have "\<forall>i\<in>set (take 12 ?un). i < length ks \<and> \<not> isDisabled (ks ! i) \<and> lastChecked (ks ! i) = 0"
    using set_take_subset[of 12 ?un] by auto
  ultimately show "\<exists>batch. scheduleNextCheck now ks c =
            c\<lparr>timeout := Some (Timer (CheckBatchThenSchedule batch) 250)\<rparr> \<and>
         batch = take 12 (filter (\<lambda>i. \<not> isDisabled (ks ! i) \<and> lastChecked (ks ! i) = 0) [0..<length ks]) \<and>
         0 < length batch \<and> length batch \<le> 12 \<and>
         (\<forall>i\<in>set batch. i < length ks \<and> \<not> isDisabled (ks ! i) \<and> lastChecked (ks ! i) = 0)"
    using s unfolding eq by blast
next
  let ?en = "filter (\<lambda>i. \<not> isDisabled (ks ! i)) [0..<length ks]"
  let ?un = "filter (\<lambda>i. lastChecked (ks ! i) = 0) ?en"
  assume a: "(\<exists>k\<in>set ks. \<not> isDisabled k) \<and> (\<forall>k\<in>set ks. \<not> isDisabled k \<longrightarrow> lastChecked k \<noteq> 0)"
  then obtain i0 where "i0 < length ks" "\<not> isDisabled (ks ! i0)" by (auto simp: in_set_conv_nth)
  then have "i0 \<in> set ?en" by simp
  then obtain e es where en: "?en = e # es" by (cases ?en) auto
  have un: "?un = []" using a by (auto simp: filter_empty_conv)
  let ?m = "foldl (olderKey ks) e es"
  let ?next = "max (lastChecked (ks ! ?m) + KEY_CHECK_PERIOD) (lastCheck c + MIN_CHECK_INTERVAL)"
  have s: "scheduleNextCheck now ks c = c\<lparr>timeout := Some (Timer (CheckKey ?m) (?next - now))\<rparr>"
    using un by (simp add: scheduleNextCheck_def Let_def en)
  from foldl_olderKey[of ks e es] have m: "?m \<in> set ?en" and
    least: "\<forall>j\<in>set ?en. lastChecked (ks ! ?m) \<le> lastChecked (ks ! j)"
    unfolding en by auto
  from m have m1: "?m < length ks" "\<not> isDisabled (ks ! ?m)" by auto
  from least have m2: "\<forall>j<length ks. \<not> isDisabled (ks ! j) \<longrightarrow> lastChecked (ks ! ?m) \<le> lastChecked (ks ! j)"
    by auto
  have "lastChecked (ks ! ?m) + 30 * 60 * 1000 \<le> ?next" "lastCheck c + 3 * 1000 \<le> ?next"
    by (simp_all add: KEY_CHECK_PERIOD_def MIN_CHECK_INTERVAL_def)
  with s m1 m2 show "\<exists>i nextCheck. i < length ks \<and> \<not> isDisabled (ks ! i) \<and>
         (\<forall>j<length ks. \<not> isDisabled (ks ! j) \<longrightarrow> lastChecked (ks ! i) \<le> lastChecked (ks ! j)) \<and>
         nextCheck = max (lastChecked (ks ! i) + KEY_CHECK_PERIOD) (lastCheck c + MIN_CHECK_INTERVAL) \<and>
         scheduleNextCheck now ks c = c\<lparr>timeout := Some (Timer (CheckKey i) (nextCheck - now))\<rparr> \<and>
         lastChecked (ks ! i) + 30 * 60 * 1000 \<le> nextCheck \<and>
         lastCheck c + 3 * 1000 \<le> nextCheck"
    by blast
qed

text \<open>
  The three phases at concrete pools: a disabled key alone; an unchecked key, a disabled
  key and another unchecked key; two checked keys, the second one checked longer ago.
\<close>

theorem scheduleNextCheck_phases_witness:
  "scheduleNextCheck 5000 [disabledKey] newChecker = newChecker \<and>
   scheduleNextCheck 5000 [exampleKey ''a1'', disabledKey, exampleKey ''d4''] newChecker =
     newChecker\<lparr>timeout := Some (Timer (CheckBatchThenSchedule [0, 2]) 250)\<rparr> \<and>
   scheduleNextCheck 4100000
       [(exampleKey ''a1'')\<lparr>lastChecked := 4000000\<rparr>, (exampleKey ''b2'')\<lparr>lastChecked := 3000000\<rparr>]
       \<lparr>lastCheck = 4000500, timeout = None\<rparr> =
     \<lparr>lastCheck = 4000500, timeout = Some (Timer (CheckKey 1) 700000)\<rparr>"
  using
    scheduleNextCheck_phases[where ks = "[disabledKey]" and now = 5000 and c = newChecker]
    scheduleNextCheck_phases[where ks = "[exampleKey ''a1'', disabledKey, exampleKey ''d4'']"
      and now = 5000 and c = newChecker]
    scheduleNextCheck_phases[where
      ks = "[(exampleKey ''a1'')\<lparr>lastChecked := 4000000\<rparr>, (exampleKey ''b2'')\<lparr>lastChecked := 3000000\<rparr>]"
      and c = "\<lparr>lastCheck = 4000500, timeout = None\<rparr>" and now = 4100000]
  by (auto simp add: disabledKey_def exampleKey_def newChecker_def KEY_CHECK_PERIOD_def
      MIN_CHECK_INTERVAL_def less_Suc_eq all_conj_distrib)
section \<open>Claims about the lockout windows, recheck and the frame of the methods\<close>

text \<open>
  Claim C6. \<open>markRateLimited\<close> with the hash of a key of the pool writes, on the first
  key with that hash, \<open>rateLimitedAt = now\<close> and \<open>rateLimitedUntil = now + 2000\<close>. When
  \<open>get\<close> selects a key (it does when some key is not disabled), the selected key of the
  pool, of which the result is a copy, has \<open>lastUsed = now\<close>, \<open>rateLimitedAt = now\<close> and
  \<open>rateLimitedUntil = now + 500\<close>. The confirmed lockout, 2000 ms, is longer than the
  reuse delay, 500 ms.
\<close>

theorem lockout_durations:
  "(h \<in> hash ` set ks \<longrightarrow>
      (\<exists>i<length ks. hash (ks ! i) = h \<and> (\<forall>j<i. hash (ks ! j) \<noteq> h) \<and>
         markRateLimited now h ks =
           Inr (ks[i := (ks ! i)\<lparr>rateLimitedAt := now, rateLimitedUntil := now + 2000\<rparr>]))) \<and>
   ((\<exists>k\<in>set ks. \<not> isDisabled k) \<longrightarrow>
      (\<exists>i<length ks. \<exists>ks'. get now ks = Inr (ks' ! i, ks') \<and>
         ks' = ks[i := (ks ! i)\<lparr>lastUsed := now, rateLimitedAt := now, rateLimitedUntil := now + 500\<rparr>])) \<and>
   RATE_LIMIT_LOCKOUT = 2000 \<and> KEY_REUSE_DELAY = 500 \<and> KEY_REUSE_DELAY < RATE_LIMIT_LOCKOUT"
proof (intro conjI impI)
  assume "h \<in> hash ` set ks"
  then obtain i where i: "findKey h ks = Some i"
    by (cases "findKey h ks") (auto simp: findKey_None_iff)
  then show "\<exists>i<length ks. hash (ks ! i) = h \<and> (\<forall>j<i. hash (ks ! j) \<noteq> h) \<and>
         markRateLimited now h ks =
           Inr (ks[i := (ks ! i)\<lparr>rateLimitedAt := now, rateLimitedUntil := now + 2000\<rparr>])"
    using findKey_Some_less[OF i] findKey_first[OF i]
    by (auto simp: markRateLimited_def RATE_LIMIT_LOCKOUT_def)
next
  assume "\<exists>k\<in>set ks. \<not> isDisabled k"
  from get_selected[OF this, of now] obtain i where
    i: "i < length ks"
      "get now ks = Inr (selectKey now (ks ! i), ks[i := selectKey now (ks ! i)])"
    by blast
  then show "\<exists>i<length ks. \<exists>ks'. get now ks = Inr (ks' ! i, ks') \<and>
         ks' = ks[i := (ks ! i)\<lparr>lastUsed := now, rateLimitedAt := now, rateLimitedUntil := now + 500\<rparr>]"
    by (auto simp: selectKey_def KEY_REUSE_DELAY_def)
qed (simp_all add: RATE_LIMIT_LOCKOUT_def KEY_REUSE_DELAY_def)

text \<open>On the pool of \<open>recentKey\<close> and \<open>pozzedKey\<close>, at time 10000.\<close>

theorem lockout_durations_witness:
  "''b2'' \<in> hash ` set [recentKey, pozzedKey] \<and>
   markRateLimited 10000 ''b2'' [recentKey, pozzedKey] =
     Inr [recentKey, pozzedKey\<lparr>rateLimitedAt := 10000, rateLimitedUntil := 12000\<rparr>] \<and>
   (\<exists>k\<in>set [recentKey, pozzedKey]. \<not> isDisabled k) \<and>
   get 10000 [recentKey, pozzedKey] =
     Inr (pozzedKey\<lparr>lastUsed := 10000, rateLimitedAt := 10000, rateLimitedUntil := 10500\<rparr>,
          [recentKey, pozzedKey\<lparr>lastUsed := 10000, rateLimitedAt := 10000, rateLimitedUntil := 10500\<rparr>])"
proof -
  have h: "''b2'' \<in> hash ` set [recentKey, pozzedKey]"
    by (simp add: pozzedKey_def exampleKey_def)
  have e: "\<exists>k\<in>set [recentKey, pozzedKey]. \<not> isDisabled k"
    by (simp add: pozzedKey_def exampleKey_def)
  have g: "get 10000 [recentKey, pozzedKey] =
     Inr (selectKey 10000 pozzedKey, [recentKey, selectKey 10000 pozzedKey])"
    by (simp add: recentKey_def pozzedKey_def exampleKey_def get_def sortBy_def compareKeys_def
        RATE_LIMIT_LOCKOUT_def KEY_REUSE_DELAY_def selectKey_def Let_def)
  from lockout_durations[of "''b2''" "[recentKey, pozzedKey]" 10000] h e
  have "(\<exists>i<length [recentKey, pozzedKey]. hash ([recentKey, pozzedKey] ! i) = ''b2'' \<and>
          (\<forall>j<i. hash ([recentKey, pozzedKey] ! j) \<noteq> ''b2'') \<and>
         markRateLimited 10000 ''b2'' [recentKey, pozzedKey] =
           Inr ([recentKey, pozzedKey][i := ([recentKey, pozzedKey] ! i)
                  \<lparr>rateLimitedAt := 10000, rateLimitedUntil := 10000 + 2000\<rparr>]))"
    by blast
  then have m: "markRateLimited 10000 ''b2'' [recentKey, pozzedKey] =
     Inr [recentKey, pozzedKey\<lparr>rateLimitedAt := 10000, rateLimitedUntil := 12000\<rparr>]"
    by (auto simp: less_Suc_eq recentKey_def selectKey_def exampleKey_def)
  from h m e g show ?thesis by (simp add: selectKey_def KEY_REUSE_DELAY_def)
qed

lemma recheckLoop_append:
  "recheckLoop now (is @ js) ks =
     (case recheckLoop now is ks of Inl e \<Rightarrow> Inl e | Inr ks' \<Rightarrow> recheckLoop now js ks')"
  by (induction "is" arbitrary: ks) (auto split: sum.splits)

lemma recheckLoop_prefix:
  assumes "distinct (map hash ks)"
  shows "n \<le> length ks \<Longrightarrow>
    recheckLoop now [0..<n] ks =
      Inr (map (\<lambda>k. k\<lparr>isPozzed := False, isDisabled := False, lastChecked := 0\<rparr>) (take n ks) @ drop n ks)"
proof (induction n)
  case 0
  then show ?case by simp
next
  case (Suc n)
  let ?r = "\<lambda>k::AnthropicKey. k\<lparr>isPozzed := False, isDisabled := False, lastChecked := 0\<rparr>"
  let ?ks' = "map ?r (take n ks) @ drop n ks"
  from Suc have n: "n < length ks" by simp
  have IH: "recheckLoop now [0..<n] ks = Inr ?ks'" using Suc by simp
  have "map hash ?ks' = map hash (take n ks) @ map hash (drop n ks)" by (simp add: comp_def)
  also have "\<dots> = map hash (take n ks @ drop n ks)" by (simp only: map_append)
  finally have h: "map hash ?ks' = map hash ks" by (simp only: append_take_drop_id)
  then have d: "distinct (map hash ?ks')" using assms by simp
  have len: "n < length ?ks'" using n by simp
  have f: "findKey (hash (?ks' ! n)) ?ks' = Some n"
    using findKey_nth_distinct[OF d len] .
  have nth: "?ks' ! n = ks ! n" using n by (simp add: nth_append)
  have upd: "?ks'[n := ?r (ks ! n)] = map ?r (take (Suc n) ks) @ drop (Suc n) ks"
    using n by (simp add: take_Suc_conv_app_nth list_update_append Cons_nth_drop_Suc[symmetric])
  have "recheckLoop now [n] ?ks' = Inr (?ks'[n := ?r (ks ! n)])"
    using f nth by (simp add: update_def objectAssign_def)
  with IH upd show ?case by (simp add: recheckLoop_append)
qed

lemma recheckLoop_never_throws:
  "\<forall>i\<in>set is. i < length ks \<Longrightarrow>
   \<exists>ks'. recheckLoop now is ks = Inr ks' \<and> length ks' = length ks"
proof (induction "is" arbitrary: ks)
  case Nil
  then show ?case by simp
next
  case (Cons i "is")
  then have "hash (ks ! i) \<in> hash ` set ks" by simp
  then obtain j where j: "findKey (hash (ks ! i)) ks = Some j"
    by (cases "findKey (hash (ks ! i)) ks") (auto simp: findKey_None_iff)
  let ?ks1 = "ks[j := objectAssign (ks ! j)
      [P_lastChecked now, P_isPozzed False, P_isDisabled False, P_lastChecked 0]]"
  have u: "update now (hash (ks ! i)) [P_isPozzed False, P_isDisabled False, P_lastChecked 0] ks =
      Inr ?ks1"
    using j by (simp add: update_def)
  have "\<forall>i\<in>set is. i < length ?ks1" using Cons.prems by simp
  from Cons.IH[OF this] obtain ks' where
    "recheckLoop now is ?ks1 = Inr ks'" "length ks' = length ?ks1"
    by blast
  with u show ?case by simp
qed

lemma recheck_never_throws: "\<exists>p'. recheck now p = Inr p'"
proof -
  have "\<forall>i\<in>set [0..<length (keys p)]. i < length (keys p)" by simp
  from recheckLoop_never_throws[OF this, of now] show ?thesis
    by (auto simp: recheck_def)
qed

text \<open>
  Claim C7, for a pool whose hashes are pairwise different (the invariant of the key
  list: \<open>update\<close> finds a key by its hash). \<open>recheck\<close> does not throw; it leaves every
  key of the pool with \<open>isPozzed = False\<close>, \<open>isDisabled = False\<close> and \<open>lastChecked = 0\<close>
  and its other fields as they were, keeps the keys in place, and then has the checker,
  when there is one, compute its schedule on the reset keys.
\<close>

theorem recheck_resets_every_key:
  assumes "distinct (map hash (keys p))"
  shows "recheck now p =
     Inr (p\<lparr>keys := map (\<lambda>k. k\<lparr>isPozzed := False, isDisabled := False, lastChecked := 0\<rparr>) (keys p),
             checker := map_option
               (scheduleNextCheck now
                  (map (\<lambda>k. k\<lparr>isPozzed := False, isDisabled := False, lastChecked := 0\<rparr>) (keys p)))
               (checker p)\<rparr>)"
  using recheckLoop_prefix[OF assms, of "length (keys p)" now]
  by (simp add: recheck_def)

text \<open>
  A disabled key and a flagged key that was checked, with a checker that had stopped:
  both keys are reset and the checker arms the startup batch for both.
\<close>

theorem recheck_resets_every_key_witness:
  "distinct (map hash [disabledKey, pozzedKey\<lparr>lastChecked := 7000\<rparr>]) \<and>
   recheck 9000 \<lparr>keys = [disabledKey, pozzedKey\<lparr>lastChecked := 7000\<rparr>], checker = Some newChecker\<rparr> =
     Inr \<lparr>keys = [exampleKey ''c3'', exampleKey ''b2''],
          checker = Some (newChecker\<lparr>timeout := Some (Timer (CheckBatchThenSchedule [0, 1]) 250)\<rparr>)\<rparr>"
proof -
  have d: "distinct (map hash (keys \<lparr>keys = [disabledKey, pozzedKey\<lparr>lastChecked := 7000\<rparr>],
      checker = Some newChecker\<rparr>))"
    by (simp add: disabledKey_def pozzedKey_def exampleKey_def)
  from recheck_resets_every_key[OF d, of 9000] d show ?thesis
    by (simp add: disabledKey_def pozzedKey_def exampleKey_def scheduleNextCheck_def newChecker_def)
qed

text \<open>
  Claim C8, as the code has it. The reference \<open>get\<close> returns is to a new object, not to
  a record of the pool, and the object holds the properties of the selected key as
  \<open>get\<close> left them: an assignment to any property of the returned object changes no
  key of the pool (neither its properties nor what its array holds). The copy is
  shallow: the returned object holds the same \<open>modelFamilies\<close> array as the selected
  key, so a write in place to that array through the returned object is a write to the
  array of the pool's key. A call of \<open>get\<close> changes the pool at the selected position
  only and writes to no array; the pool keeps its length and every position its key
  (the fields \<open>hash\<close> and \<open>key\<close>).
\<close>

theorem get_snapshot_is_shallow_copy:
  assumes "getRef now s = Inr (r, s')"
  shows "poolView (mutate r f s') = poolView s' \<and>
     pool (mutate r f s') = pool s' \<and>
     arrays s' = arrays s \<and>
     (\<exists>i<length (pool s).
        pool s' = (pool s)[i := selectKey now (pool s ! i)] \<and>
        deref s' r = Some (selectKey now (pool s ! i)) \<and>
        deref s' r = deref s' (PoolKey i) \<and> r \<noteq> PoolKey i \<and>
        (\<forall>j<length (pool s). j \<noteq> i \<longrightarrow> pool s' ! j = pool s ! j) \<and>
        (modelFamilies (pool s ! i) < length (arrays s) \<longrightarrow>
           arrays (pushFamily r x s') =
             (arrays s)[modelFamilies (pool s ! i) :=
                          arrays s ! modelFamilies (pool s ! i) @ [x]])) \<and>
     length (pool s') = length (pool s) \<and>
     map hash (pool s') = map hash (pool s) \<and> map key (pool s') = map key (pool s)"
proof -
  from assms obtain snap ks' where g: "get now (pool s) = Inr (snap, ks')" and
    r: "r = Snapshot (length (snapshots s))" and
    s': "s' = s\<lparr>pool := ks', snapshots := snapshots s @ [snap]\<rparr>"
    by (auto simp: getRef_def split: sum.splits)
  from get_Inr_shape[OF g] obtain i where i: "i < length (pool s)"
    "snap = selectKey now (pool s ! i)" "ks' = (pool s)[i := snap]" by blast
  have p: "pool s' = (pool s)[i := selectKey now (pool s ! i)]"
    by (simp add: s' i)
  have a: "arrays s' = arrays s" by (simp add: s')
  have 1: "pool (mutate r f s') = pool s'" by (simp add: r)
  have am: "arrays (mutate r f s') = arrays s'" by (simp add: r)
  have pv: "poolView (mutate r f s') = poolView s'"
    by (simp add: poolView_def readFamilies_def 1 am)
  have 2: "deref s' r = Some (selectKey now (pool s ! i))" by (simp add: r s' i)
  have 3: "deref s' (PoolKey i) = Some (selectKey now (pool s ! i))"
    using i(1) by (simp add: p)
  have 4: "map hash (pool s') = map hash (pool s)"
    using i(1) by (simp add: p map_update selectKey_def list_update_same_conv)
  have 5: "map key (pool s') = map key (pool s)"
    using i(1) by (simp add: p map_update selectKey_def list_update_same_conv)
  have 6: "\<forall>j<length (pool s). j \<noteq> i \<longrightarrow> pool s' ! j = pool s ! j"
    by (simp add: p)
  have 7: "length (pool s') = length (pool s)" by (simp add: p)
  have 8: "r \<noteq> PoolKey i" by (simp add: r)
  from 2 3 have 9: "deref s' r = deref s' (PoolKey i)" by simp
  have m: "modelFamilies (selectKey now (pool s ! i)) = modelFamilies (pool s ! i)"
    by (simp add: selectKey_def)
  have 10: "modelFamilies (pool s ! i) < length (arrays s) \<longrightarrow>
           arrays (pushFamily r x s') =
             (arrays s)[modelFamilies (pool s ! i) :=
                          arrays s ! modelFamilies (pool s ! i) @ [x]]"
    by (simp add: pushFamily_def 2 m a)
  from i(1) p 2 9 8 6 10 have "\<exists>i<length (pool s).
        pool s' = (pool s)[i := selectKey now (pool s ! i)] \<and>
        deref s' r = Some (selectKey now (pool s ! i)) \<and>
        deref s' r = deref s' (PoolKey i) \<and> r \<noteq> PoolKey i \<and>
        (\<forall>j<length (pool s). j \<noteq> i \<longrightarrow> pool s' ! j = pool s ! j) \<and>
        (modelFamilies (pool s ! i) < length (arrays s) \<longrightarrow>
           arrays (pushFamily r x s') =
             (arrays s)[modelFamilies (pool s ! i) :=
                          arrays s ! modelFamilies (pool s ! i) @ [x]])"
    by blast
  with 1 pv a 4 5 7 show ?thesis by blast
qed

text \<open>Evaluating \<open>getRef\<close> on the example store at time 10000.\<close>

lemma getRef_exampleObjects:
  "getRef 10000 exampleObjects = Inr (Snapshot 0, exampleObjectsAfterGet)"
  by (simp add: getRef_def exampleObjects_def exampleObjectsAfterGet_def recentKey_def
      pozzedKey_def exampleKey_def get_def sortBy_def compareKeys_def RATE_LIMIT_LOCKOUT_def
      KEY_REUSE_DELAY_def selectKey_def Let_def)

text \<open>
  On the example store the caller gets the first snapshot object. Disabling it leaves
  the pool as it is, whereas the same assignment through a reference to the pool's
  record would have changed the pool; and \<open>get\<close> has written to no array.
\<close>

theorem get_snapshot_is_shallow_copy_witness:
  "getRef 10000 exampleObjects = Inr (Snapshot 0, exampleObjectsAfterGet) \<and>
   poolView (mutate (Snapshot 0) (\<lambda>k. k\<lparr>isDisabled := True\<rparr>) exampleObjectsAfterGet) =
     poolView exampleObjectsAfterGet \<and>
   poolView (mutate (PoolKey 1) (\<lambda>k. k\<lparr>isDisabled := True\<rparr>) exampleObjectsAfterGet) \<noteq>
     poolView exampleObjectsAfterGet \<and>
   arrays exampleObjectsAfterGet = arrays exampleObjects \<and>
   length (pool exampleObjectsAfterGet) = length (pool exampleObjects)"
proof -
  have n: "poolView (mutate (PoolKey 1) (\<lambda>k. k\<lparr>isDisabled := True\<rparr>) exampleObjectsAfterGet) \<noteq>
     poolView exampleObjectsAfterGet"
    by (simp add: poolView_def exampleObjectsAfterGet_def pozzedKey_def selectKey_def exampleKey_def)
  from get_snapshot_is_shallow_copy[OF getRef_exampleObjects,
      where f = "\<lambda>k. k\<lparr>isDisabled := True\<rparr>"]
    getRef_exampleObjects n
  show ?thesis by blast
qed

text \<open>
  Claim C8 as stated: no write through the returned snapshot changes a key of the pool.
  On the example store \<open>get\<close> hands out a snapshot of the second key; pushing a family
  onto the snapshot's \<open>modelFamilies\<close> changes what the second key of the pool holds,
  from one family to two.
\<close>

theorem get_snapshot_shares_array_counterexample:
  "getRef 10000 exampleObjects = Inr (Snapshot 0, exampleObjectsAfterGet) \<and>
   readFamilies exampleObjectsAfterGet (pool exampleObjectsAfterGet ! 1) = Some [''claude''] \<and>
   readFamilies (pushFamily (Snapshot 0) ''gpt4'' exampleObjectsAfterGet)
       (pool (pushFamily (Snapshot 0) ''gpt4'' exampleObjectsAfterGet) ! 1) =
     Some [''claude'', ''gpt4''] \<and>
   poolView (pushFamily (Snapshot 0) ''gpt4'' exampleObjectsAfterGet) \<noteq>
     poolView exampleObjectsAfterGet"
proof -
  have 1: "readFamilies exampleObjectsAfterGet (pool exampleObjectsAfterGet ! 1) = Some [''claude'']"
    by (simp add: readFamilies_def exampleObjectsAfterGet_def pozzedKey_def selectKey_def
        exampleKey_def)
  have 2: "readFamilies (pushFamily (Snapshot 0) ''gpt4'' exampleObjectsAfterGet)
       (pool (pushFamily (Snapshot 0) ''gpt4'' exampleObjectsAfterGet) ! 1) =
     Some [''claude'', ''gpt4'']"
    by (simp add: readFamilies_def pushFamily_def exampleObjectsAfterGet_def pozzedKey_def
        selectKey_def exampleKey_def)
  have 3: "poolView (pushFamily (Snapshot 0) ''gpt4'' exampleObjectsAfterGet) \<noteq>
     poolView exampleObjectsAfterGet"
    by (simp add: poolView_def readFamilies_def pushFamily_def exampleObjectsAfterGet_def
        recentKey_def pozzedKey_def selectKey_def exampleKey_def)
  from getRef_exampleObjects 1 2 3 show ?thesis by blast
qed

text \<open>
  Claim C9, as the code has it. For a hash of the pool, \<open>incrementUsage\<close> changes the
  first key with that hash only: it adds 1 to \<open>promptCount\<close> and adds \<open>tokens\<close> to
  \<open>claudeTokens\<close>, the one token counter of an Anthropic key, whatever the model name
  is.
\<close>

theorem incrementUsage_known:
  assumes "h \<in> hash ` set ks"
  shows "\<exists>i<length ks. hash (ks ! i) = h \<and> (\<forall>j<i. hash (ks ! j) \<noteq> h) \<and>
           (\<forall>model. incrementUsage h model tokens ks =
             ks[i := (ks ! i)\<lparr>promptCount := promptCount (ks ! i) + 1,
                               claudeTokens := claudeTokens (ks ! i) + tokens\<rparr>])"
proof -
  from assms obtain i where i: "findKey h ks = Some i"
    by (cases "findKey h ks") (auto simp: findKey_None_iff)
  then show ?thesis
    using findKey_Some_less[OF i] findKey_first[OF i]
    by (auto simp: incrementUsage_def)
qed

theorem incrementUsage_known_witness:
  "''b2'' \<in> hash ` set [recentKey, pozzedKey] \<and>
   (\<exists>i<length [recentKey, pozzedKey]. hash ([recentKey, pozzedKey] ! i) = ''b2'' \<and>
      (\<forall>j<i. hash ([recentKey, pozzedKey] ! j) \<noteq> ''b2'') \<and>
      (\<forall>model. incrementUsage ''b2'' model 100 [recentKey, pozzedKey] =
         [recentKey, pozzedKey][i := ([recentKey, pozzedKey] ! i)
            \<lparr>promptCount := promptCount ([recentKey, pozzedKey] ! i) + 1,
             claudeTokens := claudeTokens ([recentKey, pozzedKey] ! i) + 100\<rparr>])) \<and>
   incrementUsage ''b2'' ''claude-2'' 100 [recentKey, pozzedKey] =
     [recentKey, pozzedKey\<lparr>promptCount := 1, claudeTokens := 100\<rparr>]"
proof -
  have h: "''b2'' \<in> hash ` set [recentKey, pozzedKey]"
    by (simp add: pozzedKey_def exampleKey_def)
  have e: "incrementUsage ''b2'' ''claude-2'' 100 [recentKey, pozzedKey] =
     [recentKey, pozzedKey\<lparr>promptCount := 1, claudeTokens := 100\<rparr>]"
    by (simp add: incrementUsage_def recentKey_def selectKey_def pozzedKey_def exampleKey_def)
  from incrementUsage_known[OF h, of 100] h e show ?thesis by blast
qed

text \<open>
  Claim C9 as stated: the counter is that of the family the model name's prefix stands
  for. The prefix of \<open>gpt-4\<close> stands for the GPT family, not for Claude, and the call
  adds the 100 tokens to \<open>claudeTokens\<close> all the same.
\<close>

theorem incrementUsage_family_counterexample:
  "familyOfModel ''gpt-4'' = Some GptFamily \<and>
   familyOfModel ''gpt-4'' \<noteq> Some ClaudeFamily \<and>
   claudeTokens (exampleKey ''a1'') = 0 \<and>
   incrementUsage ''a1'' ''gpt-4'' 100 [exampleKey ''a1''] =
     [(exampleKey ''a1'')\<lparr>promptCount := 1, claudeTokens := 100\<rparr>]"
  by (simp add: familyOfModel_def incrementUsage_def exampleKey_def)

lemma recheck_empty: "keys p = [] \<Longrightarrow> \<exists>p'. recheck now p = Inr p' \<and> keys p' = []"
  by (simp add: recheck_def)

lemma perform_keeps_empty: "keys p = [] \<Longrightarrow> keys (perform p c) = []"
proof (cases c)
  case (Pair now call)
  assume e: "keys p = []"
  show ?thesis
  proof (cases call)
    case CallGet
    with Pair e show ?thesis by (simp add: get_def)
  next
    case (CallDisable k)
    with Pair e show ?thesis by (simp add: disable_def)
  next
    case (CallUpdate h upd)
    with Pair e show ?thesis by (simp add: update_def)
  next
    case (CallIncrementUsage h m t)
    with Pair e show ?thesis by (simp add: incrementUsage_def)
  next
    case (CallMarkRateLimited h)
    with Pair e show ?thesis by (simp add: markRateLimited_def)
  next
    case CallRecheck
    with Pair e recheck_empty[OF e, of now] show ?thesis by auto
  qed
qed

lemma foldl_perform_keeps_empty: "keys p = [] \<Longrightarrow> keys (foldl perform p calls) = []"
  by (induction calls arbitrary: p) (simp_all add: perform_keeps_empty)

text \<open>
  Claim C10. With an empty list loaded, \<open>init\<close> returns the provider as it was, whatever
  the configuration flag: a new provider keeps an empty pool and gets no checker. After
  any sequence of calls of the provider's methods the pool is still empty, so
  \<open>available\<close> is 0 and \<open>get\<close> fails with the no-key-available error.
\<close>

theorem init_empty_load:
  "init checkKeys now [] p = p \<and>
   checker (init checkKeys now [] newProvider) = None \<and>
   keys (init checkKeys now [] newProvider) = [] \<and>
   available (keys (foldl perform (init checkKeys now [] newProvider) calls)) = 0 \<and>
   get now' (keys (foldl perform (init checkKeys now [] newProvider) calls)) = Inl NoKeysAvailable"
proof -
  have i: "init checkKeys now [] p = p" for p by (simp add: init_def)
  have "keys (foldl perform newProvider calls) = []"
    by (rule foldl_perform_keeps_empty) (simp add: newProvider_def)
  then show ?thesis by (simp add: i newProvider_def available_def get_def)
qed

text \<open>
  With key checking enabled, and after a \<open>recheck\<close>, an \<open>update\<close> and a \<open>get\<close>; and
  for contrast, a non-empty load with key checking enabled does start a checker.
\<close>

theorem init_empty_load_witness:
  "init True 1000 [] newProvider = newProvider \<and>
   checker (init True 1000 [] newProvider) = None \<and>
   available (keys (foldl perform (init True 1000 [] newProvider)
       [(2000, CallRecheck), (3000, CallUpdate ''a1'' []), (4000, CallGet)])) = 0 \<and>
   get 5000 (keys (foldl perform (init True 1000 [] newProvider)
       [(2000, CallRecheck), (3000, CallUpdate ''a1'' []), (4000, CallGet)])) = Inl NoKeysAvailable \<and>
   checker (init True 1000 [exampleKey ''a1''] newProvider) =
     Some (newChecker\<lparr>timeout := Some (Timer (CheckBatchThenSchedule [0]) 250)\<rparr>)"
proof -
  have c: "checker (init True 1000 [exampleKey ''a1''] newProvider) =
     Some (newChecker\<lparr>timeout := Some (Timer (CheckBatchThenSchedule [0]) 250)\<rparr>)"
    by (simp add: init_def newProvider_def scheduleNextCheck_def exampleKey_def newChecker_def)
  from init_empty_load[of True 1000 newProvider
      "[(2000, CallRecheck), (3000, CallUpdate ''a1'' []), (4000, CallGet)]" 5000] c
  show ?thesis by blast
qed

end
